theory Spec2Isabelle
  imports Complex_Main "HOL-Library.Sublist"
begin

section \<open>Tensors and the tensor operations used by \<open>upsample.py\<close>\<close>

text \<open>
  A tensor is its shape together with its elements in logical row-major order (the order
  in which \<open>reshape\<close> reads them, whatever the strides of the underlying view). The
  element type is left open: the ICNR code only moves elements around and never computes
  with them, so a float is modelled by any type with a zero.
\<close>

record 'a tensor =
  shape :: "nat list"
  data :: "'a list"

datatype error =
    IndexOutOfRange
  | ZeroDivision
  | OnlyOneDimensionInferred
  | InvalidShapeDimension int
  | AmbiguousInferredDimension
  | ShapeInvalidForSize "int list" nat
  | RepeatDimsTooFew
  | NoSuchTensor
  | InitializerFailed
  | ConstructionFailed

definition numel :: "'a tensor \<Rightarrow> nat" where
  "numel t = prod_list (shape t)"

definition wf_tensor :: "'a tensor \<Rightarrow> bool" where
  "wf_tensor t \<longleftrightarrow> length (data t) = prod_list (shape t)"

text \<open>\<open>torch.zeros(shape)\<close>.\<close>

definition zeros :: "nat list \<Rightarrow> 'a::zero tensor" where
  "zeros shp = \<lparr>shape = shp, data = replicate (prod_list shp) 0\<rparr>"

text \<open>The \<open>k\<close>-th block of \<open>n\<close> consecutive elements of a row-major sequence.\<close>

definition block :: "nat \<Rightarrow> nat \<Rightarrow> 'a list \<Rightarrow> 'a list" where
  "block n k xs = take n (drop (k * n) xs)"

text \<open>
  \<open>t.transpose(0, 1)\<close>: axes 0 and 1 are exchanged, so the element at \<open>(j, i, rest)\<close> of the
  result is the one at \<open>(i, j, rest)\<close> of \<open>t\<close>. \<open>swap01 d0 d1 n\<close> does this on the
  row-major elements of a tensor of \<open>d0\<close> by \<open>d1\<close> blocks of \<open>n\<close> elements each. A tensor
  with fewer than two axes raises (dimension out of range).
\<close>

definition swap01 :: "nat \<Rightarrow> nat \<Rightarrow> nat \<Rightarrow> 'a list \<Rightarrow> 'a list" where
  "swap01 d0 d1 n xs =
     concat (map (\<lambda>j. concat (map (\<lambda>i. block n (i * d1 + j) xs) [0..<d0])) [0..<d1])"

definition transpose01 :: "'a tensor \<Rightarrow> error + 'a tensor" where
  "transpose01 t =
     (case shape t of
        d0 # d1 # rest \<Rightarrow>
          Inr \<lparr>shape = d1 # d0 # rest, data = swap01 d0 d1 (prod_list rest) (data t)\<rparr>
      | _ \<Rightarrow> Inl IndexOutOfRange)"

text \<open>
  The size inference of \<open>reshape\<close>: one pass over the requested sizes multiplies the given
  ones and records whether a \<open>-1\<close> was seen (a second \<open>-1\<close> and any other negative size
  raise); then the sizes are accepted when the element count equals the product, or when
  a \<open>-1\<close> was seen and the positive product divides the element count. An inferred size
  next to a zero product raises (the size would be ambiguous).
\<close>

fun scan_sizes :: "int list \<Rightarrow> nat \<Rightarrow> bool \<Rightarrow> error + (nat \<times> bool)" where
  "scan_sizes [] newsize infer = Inr (newsize, infer)"
| "scan_sizes (d # ds) newsize infer =
     (if d = - 1 then (if infer then Inl OnlyOneDimensionInferred else scan_sizes ds newsize True)
      else if 0 \<le> d then scan_sizes ds (newsize * nat d) infer
      else Inl (InvalidShapeDimension d))"

definition infer_size :: "int list \<Rightarrow> nat \<Rightarrow> error + nat list" where
  "infer_size sizes n =
     (case scan_sizes sizes 1 False of
        Inl e \<Rightarrow> Inl e
      | Inr (newsize, infer) \<Rightarrow>
          if n = newsize \<or> (infer \<and> 0 < newsize \<and> n mod newsize = 0) then
            (if infer then
               (if newsize = 0 then Inl AmbiguousInferredDimension
                else Inr (map (\<lambda>d. if d = - 1 then n div newsize else nat d) sizes))
             else Inr (map nat sizes))
          else Inl (ShapeInvalidForSize sizes n))"

definition reshape :: "'a tensor \<Rightarrow> int list \<Rightarrow> error + 'a tensor" where
  "reshape t sizes =
     (case infer_size sizes (numel t) of
        Inl e \<Rightarrow> Inl e
      | Inr shp \<Rightarrow> Inr \<lparr>shape = shp, data = data t\<rparr>)"

text \<open>
  \<open>t.repeat(*reps)\<close>: the tensor is tiled \<open>reps[d]\<close> times along each axis \<open>d\<close>. Fewer
  repeat counts than axes raise; with more, the tensor gets leading axes of size one.
\<close>

fun tile :: "nat list \<Rightarrow> nat list \<Rightarrow> 'a list \<Rightarrow> 'a list" where
  "tile (n # ns) (k # ks) xs =
     concat (replicate n (concat (map (\<lambda>i. tile ns ks (block (prod_list ks) i xs)) [0..<k])))"
| "tile _ _ xs = xs"

definition repeat :: "'a tensor \<Rightarrow> nat list \<Rightarrow> error + 'a tensor" where
  "repeat t reps =
     (if length reps < length (shape t) then Inl RepeatDimsTooFew
      else let shp = replicate (length reps - length (shape t)) 1 @ shape t
           in Inr \<lparr>shape = map2 (*) reps shp, data = tile reps shp (data t)\<rparr>)"

text \<open>
  What \<open>repeat(1, 1, m)\<close> does to a tensor of shape \<open>[a, b, c]\<close>: each of the \<open>a * b\<close> rows
  of \<open>c\<close> elements is written \<open>m\<close> times in a row.
\<close>

definition tile_last :: "nat \<Rightarrow> nat \<Rightarrow> nat \<Rightarrow> nat \<Rightarrow> 'a list \<Rightarrow> 'a list" where
  "tile_last m a b c xs =
     concat (map (\<lambda>i. concat (map (\<lambda>j. concat (replicate m (block c (i * b + j) xs))) [0..<b]))
                 [0..<a])"

text \<open>The slice of output channel \<open>c\<close>: the \<open>c\<close>-th block along the first axis.\<close>

definition channel :: "'a tensor \<Rightarrow> nat \<Rightarrow> 'a list" where
  "channel t c = block (prod_list (tl (shape t))) c (data t)"

section \<open>The store, base initializers and the module\<close>

text \<open>
  Tensors live in a store and are passed by reference: an address is an index into the
  list of allocated tensors, and allocation appends. A base initializer receives the store
  and the address of its argument and gives back the store it leaves behind together with
  the address of the tensor it returns, or the error it raised. The in-place initializers
  of \<open>torch.nn.init\<close> overwrite their argument and return its address; a functional one
  allocates.
\<close>

type_synonym 'a store = "'a tensor list"

type_synonym 'a initializer = "'a store \<Rightarrow> nat \<Rightarrow> 'a store \<times> (error + nat)"

definition alloc :: "'a store \<Rightarrow> 'a tensor \<Rightarrow> 'a store \<times> nat" where
  "alloc s t = (s @ [t], length s)"

definition fetch :: "'a store \<Rightarrow> nat \<Rightarrow> error + 'a tensor" where
  "fetch s a = (if a < length s then Inr (s ! a) else Inl NoSuchTensor)"

text \<open>The tensor a call returned, read from the store the call left behind.\<close>

definition outcome :: "'a store \<times> (error + nat) \<Rightarrow> error + 'a tensor" where
  "outcome res = (case snd res of Inl e \<Rightarrow> Inl e | Inr b \<Rightarrow> fetch (fst res) b)"

text \<open>
  The contracts a base initializer may satisfy. It is shape preserving when, called on a
  tensor that has as many elements as its shape says, it returns a tensor of that shape
  (and so does return). It is free of side effects when every tensor that was in the
  store before the call, its argument included, is there unchanged after it; it may
  allocate. It computes \<open>g\<close> when the tensor it returns is \<open>g\<close> of the tensor it was given,
  whatever else the store holds: a deterministic initializer.
\<close>

definition shape_preserving :: "'a initializer \<Rightarrow> bool" where
  "shape_preserving ini \<longleftrightarrow>
     (\<forall>s a. a < length s \<longrightarrow> wf_tensor (s ! a) \<longrightarrow>
        (\<exists>t. outcome (ini s a) = Inr t \<and> shape t = shape (s ! a) \<and> wf_tensor t))"

definition side_effect_free :: "'a initializer \<Rightarrow> bool" where
  "side_effect_free ini \<longleftrightarrow> (\<forall>s a. prefix s (fst (ini s a)))"

definition computes :: "'a initializer \<Rightarrow> ('a tensor \<Rightarrow> error + 'a tensor) \<Rightarrow> bool" where
  "computes ini g \<longleftrightarrow> (\<forall>s a. a < length s \<longrightarrow> outcome (ini s a) = g (s ! a))"

text \<open>
  An initializer is confined to its argument when every other tensor that was in the
  store before the call is there unchanged after it. The in-place initializers are
  confined without being free of side effects.
\<close>

definition confined :: "'a initializer \<Rightarrow> bool" where
  "confined ini \<longleftrightarrow>
     (\<forall>s a b. b < length s \<longrightarrow> b \<noteq> a \<longrightarrow>
        b < length (fst (ini s a)) \<and> fst (ini s a) ! b = s ! b)"

text \<open>
  Three initializers of the kind the module is used with. \<open>constant_fill v\<close> overwrites its
  argument with \<open>v\<close> and returns it, as \<open>torch.nn.init.constant_\<close> does; \<open>full_like v\<close>
  leaves its argument alone and returns a new tensor; \<open>fill_by_channel\<close> overwrites its
  argument so that output channel \<open>c\<close> holds the value \<open>c + 1\<close> throughout (a tensor
  without axes has no channel and is returned as it is).
\<close>

definition constant_fill :: "'a \<Rightarrow> 'a initializer" where
  "constant_fill v s a =
     (case fetch s a of
        Inl e \<Rightarrow> (s, Inl e)
      | Inr t \<Rightarrow> (s[a := t\<lparr>data := replicate (numel t) v\<rparr>], Inr a))"

definition full_like :: "'a \<Rightarrow> 'a initializer" where
  "full_like v s a =
     (case fetch s a of
        Inl e \<Rightarrow> (s, Inl e)
      | Inr t \<Rightarrow> (s @ [t\<lparr>data := replicate (numel t) v\<rparr>], Inr (length s)))"

definition fill_by_channel :: "real initializer" where
  "fill_by_channel s a =
     (case fetch s a of
        Inl e \<Rightarrow> (s, Inl e)
      | Inr t \<Rightarrow>
          (case shape t of
             [] \<Rightarrow> (s, Inr a)
           | d0 # rest \<Rightarrow>
               (s[a := t\<lparr>data := concat (map (\<lambda>c. replicate (prod_list rest) (real (Suc c)))
                                              [0..<d0])\<rparr>],
                Inr a)))"

section \<open>\<open>Conv2dPixelShuffle\<close>\<close>

datatype padding = PadInt int | PadStr string

record conv_args =
  conv_in_channels :: int
  conv_out_channels :: int
  conv_kernel_size :: int
  conv_stride :: int
  conv_padding :: padding
  conv_dilation :: int
  conv_groups :: int
  conv_bias :: bool
  conv_padding_mode :: string

record pixel_shuffle =
  upscale_factor :: int

record ('c, 'a) conv2d_pixel_shuffle =
  convolution :: 'c
  upsample :: pixel_shuffle
  initializer :: "'a initializer"

record 'a init_args =
  in_channels :: int
  out_channels :: int
  arg_upscale_factor :: int
  kernel_size :: int
  stride :: int
  padding :: padding
  dilation :: int
  groups :: int
  bias :: bool
  padding_mode :: string
  arg_initializer :: "'a initializer"

text \<open>
  \<open>__init__\<close> (lines 41-71). \<open>convolution.Conv\<close> belongs to a module that is not part of
  the source file and \<open>torch.nn.PixelShuffle\<close> to the library, so both constructors are
  parameters; either may raise. \<open>conv_call\<close> is the argument list of lines 58-68.
  \<open>__init__\<close> itself checks nothing.
\<close>

definition conv_call :: "'a init_args \<Rightarrow> conv_args" where
  "conv_call args =
     \<lparr>conv_in_channels = in_channels args,
      conv_out_channels = out_channels args * arg_upscale_factor args * arg_upscale_factor args,
      conv_kernel_size = kernel_size args,
      conv_stride = stride args,
      conv_padding = padding args,
      conv_dilation = dilation args,
      conv_groups = groups args,
      conv_bias = bias args,
      conv_padding_mode = padding_mode args\<rparr>"

definition init :: "(conv_args \<Rightarrow> error + 'c) \<Rightarrow> (int \<Rightarrow> error + pixel_shuffle) \<Rightarrow> 'a init_args
    \<Rightarrow> error + ('c, 'a) conv2d_pixel_shuffle" where
  "init Conv PixelShuffle args =
     (case Conv (conv_call args) of
        Inl e \<Rightarrow> Inl e
      | Inr c \<Rightarrow>
          (case PixelShuffle (arg_upscale_factor args) of
             Inl e \<Rightarrow> Inl e
           | Inr u \<Rightarrow> Inr \<lparr>convolution = c, upsample = u, initializer = arg_initializer args\<rparr>))"

text \<open>
  Modelled from the spec: the channel-expanding convolution \<open>convolution.Conv\<close>, whose
  source is not part of the file. The spec has it as a standard learned convolution
  configured to produce the requested number of output channels and gives its
  constructor no check; the model keeps the parameters it is given.
\<close>

definition Conv_model :: "conv_args \<Rightarrow> error + conv_args" where
  "Conv_model args = Inr args"

text \<open>The constructor of \<open>torch.nn.PixelShuffle\<close> stores the factor and checks nothing.\<close>

definition PixelShuffle_model :: "int \<Rightarrow> error + pixel_shuffle" where
  "PixelShuffle_model r = Inr \<lparr>upscale_factor = r\<rparr>"

text \<open>
  Line 98: \<open>[int(tensor.shape[0] / (upscale_factor ** 2))] + list(tensor.shape[1:])\<close>. The
  quotient of a size by a positive square is not negative, so truncating it is the floor
  (the float quotient is exact enough for every size below \<open>2^53\<close>).
\<close>

definition new_shape :: "int \<Rightarrow> nat list \<Rightarrow> error + nat list" where
  "new_shape r shp =
     (case shp of
        [] \<Rightarrow> Inl IndexOutOfRange
      | d0 # rest \<Rightarrow> if r ^ 2 = 0 then Inl ZeroDivision else Inr ((d0 div nat (r ^ 2)) # rest))"

text \<open>
  Lines 102-110 after the initializer has returned \<open>k\<close>: transpose, flatten the trailing
  axes, repeat along the last axis, reshape to \<open>[-1, tensor.shape[0]] + tensor.shape[2:]\<close>
  and transpose back. \<open>shp\<close> is the shape of the tensor passed to \<open>icnr_initialization\<close>;
  it has a first size, or line 98 would have raised, and the transposed sub-kernel has
  two, so the three reads by index are in range.
\<close>

definition icnr_kernel :: "'a tensor \<Rightarrow> int \<Rightarrow> nat list \<Rightarrow> error + 'a tensor" where
  "icnr_kernel k r shp =
     (case transpose01 k of
        Inl e \<Rightarrow> Inl e
      | Inr subkernel \<Rightarrow>
          (case reshape subkernel [int (shape subkernel ! 0), int (shape subkernel ! 1), - 1] of
             Inl e \<Rightarrow> Inl e
           | Inr flat \<Rightarrow>
               (case repeat flat [1, 1, nat (r ^ 2)] of
                  Inl e \<Rightarrow> Inl e
                | Inr kern \<Rightarrow>
                    (case reshape kern ([- 1, int (shp ! 0)] @ map int (drop 2 shp)) of
                       Inl e \<Rightarrow> Inl e
                     | Inr res \<Rightarrow> transpose01 res))))"

text \<open>
  \<open>icnr_initialization\<close> (lines 76-110). The zero tensor is allocated, the initializer is
  called on it, and the result of the reshaping chain is a new tensor.
\<close>

definition icnr_initialization :: "'a::zero initializer \<Rightarrow> int \<Rightarrow> 'a store \<Rightarrow> nat
    \<Rightarrow> 'a store \<times> (error + nat)" where
  "icnr_initialization ini r s a =
     (if r = 1 then ini s a
      else
        (case fetch s a of
           Inl e \<Rightarrow> (s, Inl e)
         | Inr tensor \<Rightarrow>
             (case new_shape r (shape tensor) of
                Inl e \<Rightarrow> (s, Inl e)
              | Inr ns \<Rightarrow>
                  (case alloc s (zeros ns) of
                     (s0, z) \<Rightarrow>
                       (case ini s0 z of
                          (s1, Inl e) \<Rightarrow> (s1, Inl e)
                        | (s1, Inr k) \<Rightarrow>
                            (case fetch s1 k of
                               Inl e \<Rightarrow> (s1, Inl e)
                             | Inr kt \<Rightarrow>
                                 (case icnr_kernel kt r (shape tensor) of
                                    Inl e \<Rightarrow> (s1, Inl e)
                                  | Inr res \<Rightarrow>
                                      (case alloc s1 res of (s2, b) \<Rightarrow> (s2, Inr b)))))))))"

text \<open>
  \<open>post_build\<close> (lines 73-74) calls \<open>icnr_initialization\<close> on the convolution's weight and
  drops what it returns. \<open>weight\<close> reads the address of the weight tensor off the
  convolution component.
\<close>

definition post_build :: "('c \<Rightarrow> nat) \<Rightarrow> ('c, 'a::zero) conv2d_pixel_shuffle \<Rightarrow> 'a store
    \<Rightarrow> 'a store \<times> (error + unit)" where
  "post_build weight self s =
     (case icnr_initialization (initializer self) (upscale_factor (upsample self)) s
             (weight (convolution self)) of
        (s', Inl e) \<Rightarrow> (s', Inl e)
      | (s', Inr _) \<Rightarrow> (s', Inr ()))"

section \<open>The reference computation of the specification\<close>




section \<open>The identity case\<close>

text \<open>
  C4. With \<open>upscale_factor = 1\<close> the call is the base initializer's call on the tensor itself:
  the same returned tensor and the same store, whatever the initializer and the tensor.
\<close>

theorem icnr_identity_case: "icnr_initialization ini 1 s a = ini s a"
  by (simp add: icnr_initialization_def)

section \<open>Row-major index arithmetic\<close>

lemma length_concat_map_upt:
  assumes "\<And>k. k < n \<Longrightarrow> length (f k) = m"
  shows "length (concat (map f [0..<n])) = n * m"
  using assms by (induction n) simp_all

lemma nth_concat_map_upt:
  assumes "\<And>k. k < n \<Longrightarrow> length (f k) = m" and "q < n" and "p < m"
  shows "concat (map f [0..<n]) ! (q * m + p) = f q ! p"
  using assms
proof (induction n)
  case 0
  then show ?case by simp
next
  case (Suc n)
  have len: "length (concat (map f [0..<n])) = n * m"
    using Suc.prems(1) by (intro length_concat_map_upt) simp
  show ?case
  proof (cases "q < n")
    case True
    then have "Suc q \<le> n" by simp
    then have "Suc q * m \<le> n * m" by (rule mult_le_mono1)
    with \<open>p < m\<close> have lt: "q * m + p < n * m" by simp
    have "concat (map f [0..<n]) ! (q * m + p) = f q ! p"
      using Suc.IH Suc.prems True by simp
    with len lt show ?thesis by (simp add: nth_append)
  next
    case False
    with Suc.prems(2) have "q = n" by simp
    with len show ?thesis by (simp add: nth_append)
  qed
qed

lemma length_block: "(Suc k) * n \<le> length xs \<Longrightarrow> length (block n k xs) = n"
  by (simp add: block_def)

lemma nth_block:
  assumes "(Suc k) * n \<le> length xs" and "p < n"
  shows "block n k xs ! p = xs ! (k * n + p)"
  using assms by (simp add: block_def)

lemma nth_concat_replicate:
  "p < m * length xs \<Longrightarrow> concat (replicate m xs) ! p = xs ! (p mod length xs)"
proof (induction m arbitrary: p)
  case 0
  then show ?case by simp
next
  case (Suc m)
  show ?case
  proof (cases "p < length xs")
    case True
    then show ?thesis by (simp add: nth_append)
  next
    case False
    then have le: "length xs \<le> p" by simp
    then have "p - length xs < m * length xs" using Suc.prems by simp
    then have "concat (replicate m xs) ! (p - length xs) = xs ! ((p - length xs) mod length xs)"
      by (rule Suc.IH)
    moreover have "(p - length xs) mod length xs = p mod length xs"
      using le by (simp add: le_mod_geq)
    ultimately show ?thesis using False by (simp add: nth_append)
  qed
qed

lemma split_index3:
  assumes "x < a * b * (c::nat)"
  obtains i j p where "i < a" "j < b" "p < c" "x = (i * b + j) * c + p"
proof -
  have c: "0 < c" using assms by (cases "c = 0") simp_all
  have b: "0 < b" using assms by (cases "b = 0") simp_all
  have "x div c < a * b" using assms c by (simp add: less_mult_imp_div_less)
  then have 1: "x div c div b < a" using b by (simp add: less_mult_imp_div_less)
  have 2: "x div c mod b < b" using b by simp
  have 3: "x mod c < c" using c by simp
  have "x div c = x div c div b * b + x div c mod b" by simp
  then have "x = (x div c div b * b + x div c mod b) * c + x mod c" by simp
  with 1 2 3 that show thesis by blast
qed

lemma index2_less: "i < a \<Longrightarrow> j < b \<Longrightarrow> i * b + j < a * (b::nat)"
proof -
  assume i: "i < a" and j: "j < b"
  have "i * b + j < Suc i * b" using j by simp
  also have "\<dots> \<le> a * b" using i by (intro mult_le_mono1) simp
  finally show ?thesis .
qed

lemma index2_Suc_le: "i < a \<Longrightarrow> j < b \<Longrightarrow> Suc (i * b + j) * n \<le> a * b * (n::nat)"
  using index2_less[of i a j b] by (intro mult_le_mono1) simp

section \<open>Transposition and tiling on row-major data\<close>

lemma length_swap01_row:
  assumes "length xs = d0 * d1 * n" and "j < d1"
  shows "length (concat (map (\<lambda>i. block n (i * d1 + j) xs) [0..<d0])) = d0 * n"
proof (rule length_concat_map_upt)
  fix i assume "i < d0"
  then have "Suc (i * d1 + j) * n \<le> length xs"
    using assms index2_Suc_le[of i d0 j d1 n] by simp
  then show "length (block n (i * d1 + j) xs) = n" by (rule length_block)
qed

lemma length_swap01:
  assumes "length xs = d0 * d1 * n"
  shows "length (swap01 d0 d1 n xs) = d1 * d0 * n"
proof -
  have "length (swap01 d0 d1 n xs) = d1 * (d0 * n)"
    unfolding swap01_def using assms by (intro length_concat_map_upt length_swap01_row)
  then show ?thesis by simp
qed

lemma nth_swap01:
  assumes len: "length xs = d0 * d1 * n" and j: "j < d1" and i: "i < d0" and p: "p < n"
  shows "swap01 d0 d1 n xs ! ((j * d0 + i) * n + p) = xs ! ((i * d1 + j) * n + p)"
proof -
  have idx: "(j * d0 + i) * n + p = j * (d0 * n) + (i * n + p)"
    by (simp add: algebra_simps)
  have inner: "i * n + p < d0 * n" using i p by (rule index2_less)
  have "swap01 d0 d1 n xs ! (j * (d0 * n) + (i * n + p))
      = concat (map (\<lambda>i. block n (i * d1 + j) xs) [0..<d0]) ! (i * n + p)"
    unfolding swap01_def
    by (rule nth_concat_map_upt) (use len j inner in \<open>simp_all add: length_swap01_row\<close>)
  also have "\<dots> = block n (i * d1 + j) xs ! p"
  proof (rule nth_concat_map_upt)
    fix k assume "k < d0"
    then have "Suc (k * d1 + j) * n \<le> length xs"
      using len j index2_Suc_le[of k d0 j d1 n] by simp
    then show "length (block n (k * d1 + j) xs) = n" by (rule length_block)
  qed (use i p in simp_all)
  also have "\<dots> = xs ! ((i * d1 + j) * n + p)"
  proof (rule nth_block)
    show "Suc (i * d1 + j) * n \<le> length xs"
      using len i j index2_Suc_le[of i d0 j d1 n] by simp
  qed (rule p)
  finally show ?thesis by (simp only: idx)
qed

lemma concat_blocks: "concat (map (\<lambda>i. block n i xs) [0..<k]) = take (k * n) xs"
proof (induction k)
  case 0
  then show ?case by simp
next
  case (Suc k)
  have "take (k * n + n) xs = take (k * n) xs @ take n (drop (k * n) xs)"
    by (rule take_add)
  with Suc show ?case by (simp add: block_def add.commute)
qed

lemma block_block:
  assumes "j < b"
  shows "block c j (block (b * c) i xs) = block c (i * b + j) xs"
proof -
  have "Suc j * c \<le> b * c" using assms by (intro mult_le_mono1) simp
  then have "c \<le> b * c - j * c" by simp
  then have m: "min c (b * c - j * c) = c" by simp
  have "block c j (block (b * c) i xs) = take c (take (b * c - j * c) (drop (j * c) (drop (i * (b * c)) xs)))"
    by (simp add: block_def drop_take)
  also have "\<dots> = take c (drop (j * c + i * (b * c)) xs)"
    using m by simp
  also have "j * c + i * (b * c) = (i * b + j) * c" by (simp add: algebra_simps)
  finally show ?thesis by (simp add: block_def)
qed

lemma tile_one: "tile [m] [c] xs = concat (replicate m (take c xs))"
  using concat_blocks[of 1 xs c] by simp

lemma take_block: "take c (block c q xs) = block c q xs"
  by (simp add: block_def)

lemma tile_two:
  "tile [1, m] [b, c] ys = concat (map (\<lambda>j. concat (replicate m (block c j ys))) [0..<b])"
proof -
  have "tile [1, m] [b, c] ys
      = concat (replicate 1 (concat (map (\<lambda>j. tile [m] [c] (block (prod_list [c]) j ys)) [0..<b])))"
    by (rule tile.simps(1))
  also have "\<dots> = concat (map (\<lambda>j. tile [m] [c] (block c j ys)) [0..<b])"
    by (simp del: tile.simps)
  also have "\<dots> = concat (map (\<lambda>j. concat (replicate m (block c j ys))) [0..<b])"
    by (simp only: tile_one take_block)
  finally show ?thesis .
qed

lemma tile_111: "tile [1, 1, m] [a, b, c] xs = tile_last m a b c xs"
proof -
  have row: "tile [1, m] [b, c] (block (b * c) i xs)
      = concat (map (\<lambda>j. concat (replicate m (block c (i * b + j) xs))) [0..<b])" for i
  proof -
    have "map (\<lambda>j. concat (replicate m (block c j (block (b * c) i xs)))) [0..<b]
        = map (\<lambda>j. concat (replicate m (block c (i * b + j) xs))) [0..<b]"
      by (rule map_cong) (simp_all add: block_block)
    then show ?thesis by (simp only: tile_two)
  qed
  have "tile [1, 1, m] [a, b, c] xs
      = concat (replicate 1 (concat (map (\<lambda>i. tile [1, m] [b, c] (block (prod_list [b, c]) i xs)) [0..<a])))"
    by (rule tile.simps(1))
  also have "\<dots> = concat (map (\<lambda>i. tile [1, m] [b, c] (block (b * c) i xs)) [0..<a])"
    by (simp del: tile.simps)
  also have "\<dots> = tile_last m a b c xs"
    by (simp only: row tile_last_def)
  finally show ?thesis .
qed

lemma length_tile_row:
  assumes "length xs = a * b * c" and "i < a" and "j < b"
  shows "length (concat (replicate m (block c (i * b + j) xs))) = c * m"
proof -
  have "Suc (i * b + j) * c \<le> length xs"
    using assms index2_Suc_le[of i a j b c] by simp
  then have "length (block c (i * b + j) xs) = c" by (rule length_block)
  then show ?thesis by (simp add: length_concat sum_list_replicate)
qed

lemma length_tile_last:
  assumes "length xs = a * b * c"
  shows "length (tile_last m a b c xs) = a * b * (c * m)"
proof -
  have "length (tile_last m a b c xs) = a * (b * (c * m))"
    unfolding tile_last_def
    by (intro length_concat_map_upt length_tile_row[OF assms])
  then show ?thesis by simp
qed

lemma nth_tile_last:
  assumes len: "length xs = a * b * c" and i: "i < a" and j: "j < b" and p: "p < c * m"
  shows "tile_last m a b c xs ! ((i * b + j) * (c * m) + p) = xs ! ((i * b + j) * c + p mod c)"
proof -
  have blk: "Suc (i * b + j) * c \<le> length xs"
    using len i j index2_Suc_le[of i a j b c] by simp
  then have lb: "length (block c (i * b + j) xs) = c" by (rule length_block)
  have c: "0 < c" using p by (cases "c = 0") simp_all
  have idx: "(i * b + j) * (c * m) + p = i * (b * (c * m)) + (j * (c * m) + p)"
    by (simp add: algebra_simps)
  have inner: "j * (c * m) + p < b * (c * m)" using j p by (rule index2_less)
  have "tile_last m a b c xs ! (i * (b * (c * m)) + (j * (c * m) + p))
      = concat (map (\<lambda>j. concat (replicate m (block c (i * b + j) xs))) [0..<b]) ! (j * (c * m) + p)"
    unfolding tile_last_def
  proof (rule nth_concat_map_upt)
    fix k assume "k < a"
    show "length (concat (map (\<lambda>j. concat (replicate m (block c (k * b + j) xs))) [0..<b])) = b * (c * m)"
      by (intro length_concat_map_upt length_tile_row[OF len \<open>k < a\<close>])
  qed (use i inner in simp_all)
  also have "\<dots> = concat (replicate m (block c (i * b + j) xs)) ! p"
  proof (rule nth_concat_map_upt)
    fix k assume "k < b"
    with len i show "length (concat (replicate m (block c (i * b + k) xs))) = c * m"
      by (rule length_tile_row)
  qed (use j p in simp_all)
  also have "\<dots> = block c (i * b + j) xs ! (p mod c)"
    using nth_concat_replicate[of p m "block c (i * b + j) xs"] p lb by (simp add: mult.commute)
  also have "\<dots> = xs ! ((i * b + j) * c + p mod c)"
    using blk c by (intro nth_block) simp_all
  finally show ?thesis by (simp only: idx)
qed

section \<open>The reshaping chain\<close>

lemma infer_flatten:
  assumes "0 < a * b" and "n mod (a * b) = 0"
  shows "infer_size [int a, int b, - 1] n = Inr [a, b, n div (a * b)]"
  using assms by (simp add: infer_size_def)

lemma infer_final:
  assumes "0 < O'" and "0 < kH" and "0 < kW"
  shows "infer_size ([- 1, int O'] @ map int [kH, kW]) n =
     (if n mod (O' * kH * kW) = 0 then Inr [n div (O' * kH * kW), O', kH, kW]
      else Inl (ShapeInvalidForSize [- 1, int O', int kH, int kW] n))"
  using assms by (auto simp add: infer_size_def)

lemma icnr_kernel_general:
  assumes shp: "shape k = [R, I, kH, kW]"
    and pos: "0 < R" "0 < I" "0 < kH" "0 < kW" "0 < O'" "0 < nat (r ^ 2)"
  shows "icnr_kernel k r [O', I', kH, kW] =
     (if O' dvd I * R * nat (r ^ 2) then
        Inr \<lparr>shape = [O', I * R * nat (r ^ 2) div O', kH, kW],
             data = swap01 (I * R * nat (r ^ 2) div O') O' (kH * kW)
                      (tile_last (nat (r ^ 2)) I R (kH * kW) (swap01 R I (kH * kW) (data k)))\<rparr>
      else Inl (ShapeInvalidForSize [- 1, int O', int kH, int kW] (I * R * (nat (r ^ 2) * (kH * kW)))))"
proof -
  define r2 where "r2 = nat (r ^ 2)"
  define S where "S = kH * kW"
  have S: "0 < S" using pos by (simp add: S_def)
  have t: "transpose01 k = Inr \<lparr>shape = [I, R, kH, kW], data = swap01 R I S (data k)\<rparr>"
    using shp by (simp add: transpose01_def S_def)
  have f: "reshape \<lparr>shape = [I, R, kH, kW], data = swap01 R I S (data k)\<rparr> [int I, int R, - 1]
      = Inr \<lparr>shape = [I, R, S], data = swap01 R I S (data k)\<rparr>"
  proof -
    have "infer_size [int I, int R, - 1] (I * R * S) = Inr [I, R, I * R * S div (I * R)]"
      using pos by (intro infer_flatten) simp_all
    moreover have "I * R * S div (I * R) = S" using pos by simp
    ultimately show ?thesis by (simp add: reshape_def numel_def S_def mult.assoc)
  qed
  have rp: "repeat \<lparr>shape = [I, R, S], data = swap01 R I S (data k)\<rparr> [1, 1, r2]
      = Inr \<lparr>shape = [I, R, r2 * S], data = tile_last r2 I R S (swap01 R I S (data k))\<rparr>"
    by (simp add: repeat_def tile_111[unfolded One_nat_def] del: tile.simps)
  have n: "I * R * (r2 * S) = (I * R * r2) * S" by simp
  have md: "(I * R * r2) * S mod (O' * S) = 0 \<longleftrightarrow> O' dvd I * R * r2"
    using S by (simp add: mod_mult_mult2 dvd_eq_mod_eq_0)
  have dv: "(I * R * r2) * S div (O' * S) = I * R * r2 div O'"
    using S by simp
  have inf: "infer_size ([- 1, int O'] @ map int [kH, kW]) (I * R * (r2 * S)) =
     (if O' dvd I * R * r2 then Inr [I * R * r2 div O', O', kH, kW]
      else Inl (ShapeInvalidForSize [- 1, int O', int kH, int kW] (I * R * (r2 * S))))"
    using infer_final[OF pos(5) pos(3) pos(4), of "I * R * (r2 * S)"] md dv
    by (simp only: n S_def mult.assoc[symmetric])
  have rs: "reshape \<lparr>shape = [I, R, r2 * S], data = ys\<rparr> ([- 1, int O'] @ map int [kH, kW]) =
     (if O' dvd I * R * r2 then Inr \<lparr>shape = [I * R * r2 div O', O', kH, kW], data = ys\<rparr>
      else Inl (ShapeInvalidForSize [- 1, int O', int kH, int kW] (I * R * (r2 * S))))" for ys :: "'a list"
    using inf by (simp add: reshape_def numel_def mult.assoc)
  have "icnr_kernel k r [O', I', kH, kW] =
     (case reshape \<lparr>shape = [I, R, r2 * S], data = tile_last r2 I R S (swap01 R I S (data k))\<rparr>
             ([- 1, int O'] @ map int [kH, kW]) of
        Inl e \<Rightarrow> Inl e | Inr res \<Rightarrow> transpose01 res)"
    unfolding icnr_kernel_def using t f rp by (simp add: r2_def)
  also have "\<dots> = (if O' dvd I * R * r2 then
        Inr \<lparr>shape = [O', I * R * r2 div O', kH, kW],
             data = swap01 (I * R * r2 div O') O' S (tile_last r2 I R S (swap01 R I S (data k)))\<rparr>
      else Inl (ShapeInvalidForSize [- 1, int O', int kH, int kW] (I * R * (r2 * S))))"
    by (simp only: rs) (simp add: transpose01_def S_def)
  finally show ?thesis by (simp only: r2_def S_def)
qed

lemma div_less_block: "0 < r2 \<Longrightarrow> x < R * r2 \<Longrightarrow> x div r2 < (R::nat)"
  by (simp add: less_mult_imp_div_less)

lemma length_channels:
  assumes len: "length xs = R * I * S" and r2: "0 < r2"
  shows "length (concat (map (\<lambda>c. block (I * S) (c div r2) xs) [0..<R * r2])) = R * r2 * (I * S)"
proof (rule length_concat_map_upt)
  fix c assume "c < R * r2"
  with r2 have "c div r2 < R" by (rule div_less_block)
  then have "Suc (c div r2) * (I * S) \<le> R * (I * S)" by (intro mult_le_mono1) simp
  then have "Suc (c div r2) * (I * S) \<le> length xs" using len by (simp add: mult.assoc)
  then show "length (block (I * S) (c div r2) xs) = I * S" by (rule length_block)
qed

lemma icnr_data:
  assumes len: "length xs = R * I * S" and r2: "0 < r2"
  shows "swap01 I (R * r2) S (tile_last r2 I R S (swap01 R I S xs))
       = concat (map (\<lambda>c. block (I * S) (c div r2) xs) [0..<R * r2])"
    (is "?L = ?R")
proof (rule nth_equalityI)
  have lt: "length (swap01 R I S xs) = I * R * S" using len by (rule length_swap01)
  have ly: "length (tile_last r2 I R S (swap01 R I S xs)) = I * (R * r2) * S"
    using length_tile_last[OF lt, of r2] by (simp add: algebra_simps)
  have lL: "length ?L = R * r2 * I * S" using ly by (rule length_swap01)
  have lR: "length ?R = R * r2 * (I * S)" using len r2 by (rule length_channels)
  show "length ?L = length ?R" using lL lR by (simp add: mult.assoc)
  fix x assume "x < length ?L"
  then have "x < R * r2 * I * S" using lL by simp
  then obtain c i s where c: "c < R * r2" and i: "i < I" and s: "s < S"
    and x: "x = (c * I + i) * S + s"
    by (rule split_index3)
  define q where "q = c div r2"
  define m where "m = c mod r2"
  have q: "q < R" unfolding q_def using r2 c by (rule div_less_block)
  have m: "m < r2" unfolding m_def using r2 by simp
  have cqm: "c = q * r2 + m" by (simp add: q_def m_def)
  have p: "m * S + s < S * r2" using index2_less[OF m s] by (simp add: mult.commute)
  have pm: "(m * S + s) mod S = s" using s by simp
  have "?L ! ((c * I + i) * S + s) = tile_last r2 I R S (swap01 R I S xs) ! ((i * (R * r2) + c) * S + s)"
    using ly c i s by (rule nth_swap01)
  also have "(i * (R * r2) + c) * S + s = (i * R + q) * (S * r2) + (m * S + s)"
    by (simp add: cqm algebra_simps)
  also have "tile_last r2 I R S (swap01 R I S xs) ! ((i * R + q) * (S * r2) + (m * S + s))
      = swap01 R I S xs ! ((i * R + q) * S + (m * S + s) mod S)"
    using lt i q p by (rule nth_tile_last)
  also have "\<dots> = swap01 R I S xs ! ((i * R + q) * S + s)" by (simp only: pm)
  also have "\<dots> = xs ! ((q * I + i) * S + s)"
    using len i q s by (rule nth_swap01)
  finally have L: "?L ! x = xs ! ((q * I + i) * S + s)" by (simp only: x)
  have isl: "i * S + s < I * S" using i s by (rule index2_less)
  have blk: "Suc q * (I * S) \<le> length xs"
  proof -
    have "Suc q * (I * S) \<le> R * (I * S)" using q by (intro mult_le_mono1) simp
    then show ?thesis using len by (simp add: mult.assoc)
  qed
  have "?R ! (c * (I * S) + (i * S + s)) = block (I * S) (c div r2) xs ! (i * S + s)"
  proof (rule nth_concat_map_upt)
    fix k assume "k < R * r2"
    with r2 have "k div r2 < R" by (rule div_less_block)
    then have "Suc (k div r2) * (I * S) \<le> R * (I * S)" by (intro mult_le_mono1) simp
    then have "Suc (k div r2) * (I * S) \<le> length xs" using len by (simp add: mult.assoc)
    then show "length (block (I * S) (k div r2) xs) = I * S" by (rule length_block)
  qed (use c isl in simp_all)
  also have "\<dots> = xs ! (q * (I * S) + (i * S + s))"
    unfolding q_def[symmetric] using blk isl by (rule nth_block)
  finally have R: "?R ! x = xs ! ((q * I + i) * S + s)"
    by (simp add: x algebra_simps)
  show "?L ! x = ?R ! x" using L R by simp
qed

section \<open>The call in the store\<close>

lemma icnr_outcome:
  assumes "r \<noteq> 1" and "a < length s" and "new_shape r (shape (s ! a)) = Inr ns"
  shows "outcome (icnr_initialization ini r s a) =
     (case outcome (ini (s @ [zeros ns]) (length s)) of
        Inl e \<Rightarrow> Inl e
      | Inr k \<Rightarrow> icnr_kernel k r (shape (s ! a)))"
proof (cases "ini (s @ [zeros ns]) (length s)")
  case (Pair s1 res)
  show ?thesis
  proof (cases res)
    case (Inl e)
    with Pair assms show ?thesis
      by (simp add: icnr_initialization_def fetch_def alloc_def outcome_def)
  next
    case (Inr k)
    show ?thesis
    proof (cases "k < length s1")
      case False
      with Pair Inr assms show ?thesis
        by (simp add: icnr_initialization_def fetch_def alloc_def outcome_def)
    next
      case True
      with Pair Inr assms show ?thesis
        by (cases "icnr_kernel (s1 ! k) r (shape (s ! a))")
           (simp_all add: icnr_initialization_def fetch_def alloc_def outcome_def)
    qed
  qed
qed

lemma wf_zeros: "wf_tensor (zeros ns)"
  by (simp add: wf_tensor_def zeros_def)

lemma shape_preserving_zeros:
  assumes "shape_preserving ini"
  obtains k where "outcome (ini (s @ [zeros ns]) (length s)) = Inr k"
    and "shape k = ns" and "length (data k) = prod_list ns"
proof -
  have "length s < length (s @ [zeros ns])" by simp
  moreover have "wf_tensor ((s @ [zeros ns]) ! length s)" by (simp add: wf_zeros)
  ultimately obtain t where "outcome (ini (s @ [zeros ns]) (length s)) = Inr t"
    and "shape t = shape ((s @ [zeros ns]) ! length s)" and "wf_tensor t"
    using assms unfolding shape_preserving_def by blast
  then show thesis using that by (simp add: zeros_def wf_tensor_def)
qed

lemma block_concat_map_upt:
  assumes len: "\<And>k. k < n \<Longrightarrow> length (f k) = m" and c: "c < n"
  shows "block m c (concat (map f [0..<n])) = f c"
proof (rule nth_equalityI)
  have l: "length (concat (map f [0..<n])) = n * m" using len by (rule length_concat_map_upt)
  have "Suc c * m \<le> n * m" using c by (intro mult_le_mono1) simp
  then have le: "Suc c * m \<le> length (concat (map f [0..<n]))" using l by simp
  then have lb: "length (block m c (concat (map f [0..<n]))) = m" by (rule length_block)
  then show "length (block m c (concat (map f [0..<n]))) = length (f c)" using len c by simp
  fix p assume "p < length (block m c (concat (map f [0..<n])))"
  then have p: "p < m" using lb by simp
  have "block m c (concat (map f [0..<n])) ! p = concat (map f [0..<n]) ! (c * m + p)"
    using le p by (rule nth_block)
  also have "\<dots> = f c ! p" using len c p by (rule nth_concat_map_upt)
  finally show "block m c (concat (map f [0..<n])) ! p = f c ! p" .
qed

text \<open>The divisible case: every output channel of the result is a channel of the sub-kernel.\<close>

lemma icnr_kernel_divisible:
  assumes shp: "shape k = [R, I, kH, kW]" and len: "length (data k) = R * I * kH * kW"
    and pos: "0 < R" "0 < I" "0 < kH" "0 < kW" "0 < nat (r ^ 2)"
  shows "icnr_kernel k r [R * nat (r ^ 2), I', kH, kW] =
     Inr \<lparr>shape = [R * nat (r ^ 2), I, kH, kW],
          data = concat (map (\<lambda>c. block (I * (kH * kW)) (c div nat (r ^ 2)) (data k))
                             [0..<R * nat (r ^ 2)])\<rparr>"
proof -
  have O: "0 < R * nat (r ^ 2)" using pos by simp
  have d: "R * nat (r ^ 2) dvd I * R * nat (r ^ 2)" by simp
  have q: "I * R * nat (r ^ 2) div (R * nat (r ^ 2)) = I" using O by simp
  have l: "length (data k) = R * I * (kH * kW)" using len by (simp add: mult.assoc)
  show ?thesis
    using icnr_kernel_general[OF shp pos(1-4) O pos(5), of I'] d q
      icnr_data[OF l pos(5)]
    by simp
qed

lemma infer_final_zero:
  assumes "O' * kH * kW = 0"
  shows "infer_size ([- 1, int O'] @ map int [kH, kW]) 0 = Inl AmbiguousInferredDimension"
  using assms by (auto simp add: infer_size_def)

lemma infer_flatten_zero:
  assumes "a * b = 0"
  shows "infer_size [int a, int b, - 1] 0 = Inl AmbiguousInferredDimension"
  using assms by (auto simp add: infer_size_def)

lemma icnr_kernel_degenerate:
  assumes shp: "shape k = [R, I, kH, kW]" and z: "R * I * kH * kW = 0"
  shows "icnr_kernel k r [O', I', kH, kW] = Inl AmbiguousInferredDimension"
proof (cases "I * R = 0")
  case True
  have t: "transpose01 k = Inr \<lparr>shape = [I, R, kH, kW], data = swap01 R I (kH * kW) (data k)\<rparr>"
    using shp by (simp add: transpose01_def)
  have n: "numel \<lparr>shape = [I, R, kH, kW], data = swap01 R I (kH * kW) (data k)\<rparr> = 0"
    using True by (auto simp add: numel_def)
  have "infer_size [int I, int R, - 1] 0 = Inl AmbiguousInferredDimension"
    using True by (rule infer_flatten_zero)
  then have f: "reshape \<lparr>shape = [I, R, kH, kW], data = swap01 R I (kH * kW) (data k)\<rparr>
      [int I, int R, - 1] = Inl AmbiguousInferredDimension"
    by (simp add: reshape_def n)
  show ?thesis
    unfolding icnr_kernel_def using t f by simp
next
  case False
  then have pos: "0 < I * R" by simp
  with z have S: "kH * kW = 0" by auto
  define ys where "ys = swap01 R I (kH * kW) (data k)"
  have t: "transpose01 k = Inr \<lparr>shape = [I, R, kH, kW], data = ys\<rparr>"
    using shp by (simp add: transpose01_def ys_def)
  have n: "numel \<lparr>shape = [I, R, kH, kW], data = ys\<rparr> = 0"
    using S by (auto simp add: numel_def)
  have "infer_size [int I, int R, - 1] 0 = Inr [I, R, 0 div (I * R)]"
    using pos by (intro infer_flatten) simp_all
  then have f: "reshape \<lparr>shape = [I, R, kH, kW], data = ys\<rparr> [int I, int R, - 1]
      = Inr \<lparr>shape = [I, R, 0], data = ys\<rparr>"
    by (simp add: reshape_def n)
  have rp: "repeat \<lparr>shape = [I, R, 0], data = ys\<rparr> [1, 1, nat (r ^ 2)]
      = Inr \<lparr>shape = [I, R, 0], data = tile_last (nat (r ^ 2)) I R 0 ys\<rparr>"
    by (simp add: repeat_def tile_111[unfolded One_nat_def] del: tile.simps)
  have "O' * kH * kW = 0" using S by (simp add: mult.assoc)
  then have "infer_size ([- 1, int O'] @ map int [kH, kW]) 0 = Inl AmbiguousInferredDimension"
    by (rule infer_final_zero)
  then have rs: "reshape \<lparr>shape = [I, R, 0], data = zs\<rparr> ([- 1, int O'] @ map int [kH, kW])
      = Inl AmbiguousInferredDimension" for zs :: "'a list"
    by (simp add: reshape_def numel_def)
  show ?thesis
    unfolding icnr_kernel_def using t f rp rs by simp
qed



lemma new_shape_4:
  "0 < nat (r ^ 2) \<Longrightarrow> new_shape r [O', I, kH, kW] = Inr [O' div nat (r ^ 2), I, kH, kW]"
  by (auto simp add: new_shape_def)

lemma length_channel_block:
  assumes len: "length xs = R * I * S" and r2: "0 < r2" and c: "c < R * r2"
  shows "length (block (I * S) (c div r2) xs) = I * S"
proof -
  from r2 c have "c div r2 < R" by (rule div_less_block)
  then have "Suc (c div r2) * (I * S) \<le> R * (I * S)" by (intro mult_le_mono1) simp
  then have "Suc (c div r2) * (I * S) \<le> length xs" using len by (simp add: mult.assoc)
  then show ?thesis by (rule length_block)
qed

lemma icnr_divisible:
  assumes r: "r \<noteq> 1" "0 < nat (r ^ 2)" and a: "a < length s"
    and shp: "shape (s ! a) = [O', I, kH, kW]"
    and dvd: "nat (r ^ 2) dvd O'" and sp: "shape_preserving ini"
  obtains k where "outcome (ini (s @ [zeros [O' div nat (r ^ 2), I, kH, kW]]) (length s)) = Inr k"
    and "shape k = [O' div nat (r ^ 2), I, kH, kW]"
    and "length (data k) = O' div nat (r ^ 2) * I * (kH * kW)"
    and "outcome (icnr_initialization ini r s a) =
      (if O' = 0 \<or> I = 0 \<or> kH = 0 \<or> kW = 0 then Inl AmbiguousInferredDimension
       else Inr \<lparr>shape = [O', I, kH, kW],
                 data = concat (map (\<lambda>c. block (I * (kH * kW)) (c div nat (r ^ 2)) (data k)) [0..<O'])\<rparr>)"
proof -
  define r2 where "r2 = nat (r ^ 2)"
  define R where "R = O' div r2"
  have O: "O' = R * r2" using dvd by (simp add: R_def r2_def)
  have ns: "new_shape r (shape (s ! a)) = Inr [R, I, kH, kW]"
    using r(2) shp by (simp add: new_shape_4 R_def r2_def)
  obtain k where k: "outcome (ini (s @ [zeros [R, I, kH, kW]]) (length s)) = Inr k"
    and sk: "shape k = [R, I, kH, kW]" and lk: "length (data k) = prod_list [R, I, kH, kW]"
    using sp by (rule shape_preserving_zeros)
  have out: "outcome (icnr_initialization ini r s a) = icnr_kernel k r [O', I, kH, kW]"
    using icnr_outcome[OF r(1) a ns, of ini] k shp by simp
  have res: "icnr_kernel k r [O', I, kH, kW] =
      (if O' = 0 \<or> I = 0 \<or> kH = 0 \<or> kW = 0 then Inl AmbiguousInferredDimension
       else Inr \<lparr>shape = [O', I, kH, kW],
                 data = concat (map (\<lambda>c. block (I * (kH * kW)) (c div r2) (data k)) [0..<O'])\<rparr>)"
  proof (cases "O' = 0 \<or> I = 0 \<or> kH = 0 \<or> kW = 0")
    case True
    have "0 < r2" using r(2) by (simp add: r2_def)
    with True have "R * I * kH * kW = 0" using O by auto
    with sk have "icnr_kernel k r [O', I, kH, kW] = Inl AmbiguousInferredDimension"
      by (rule icnr_kernel_degenerate)
    with True show ?thesis by simp
  next
    case False
    then have pos: "0 < R" "0 < I" "0 < kH" "0 < kW" using O by auto
    have l: "length (data k) = R * I * kH * kW" using lk by (simp add: mult.assoc)
    have "icnr_kernel k r [R * nat (r ^ 2), I, kH, kW] =
        Inr \<lparr>shape = [R * nat (r ^ 2), I, kH, kW],
             data = concat (map (\<lambda>c. block (I * (kH * kW)) (c div nat (r ^ 2)) (data k))
                                [0..<R * nat (r ^ 2)])\<rparr>"
      using sk l pos r(2) by (rule icnr_kernel_divisible)
    with False show ?thesis by (simp add: O r2_def)
  qed
  show thesis
  proof (rule that)
    show "outcome (ini (s @ [zeros [O' div nat (r ^ 2), I, kH, kW]]) (length s)) = Inr k"
      using k by (simp add: R_def r2_def)
    show "shape k = [O' div nat (r ^ 2), I, kH, kW]" using sk by (simp add: R_def r2_def)
    show "length (data k) = O' div nat (r ^ 2) * I * (kH * kW)"
      using lk by (simp add: R_def r2_def mult.assoc)
    show "outcome (icnr_initialization ini r s a) =
      (if O' = 0 \<or> I = 0 \<or> kH = 0 \<or> kW = 0 then Inl AmbiguousInferredDimension
       else Inr \<lparr>shape = [O', I, kH, kW],
                 data = concat (map (\<lambda>c. block (I * (kH * kW)) (c div nat (r ^ 2)) (data k)) [0..<O'])\<rparr>)"
      using out res by (simp add: r2_def)
  qed
qed

lemma nat_square_pos: "1 < r \<Longrightarrow> 0 < nat (r ^ 2)"
  by simp

section \<open>Uniformity of the channel blocks\<close>

lemma icnr_divisible_at:
  assumes r: "r \<noteq> 1" "0 < nat (r ^ 2)" and a: "a < length s"
    and shp: "shape (s ! a) = [O', I, kH, kW]" and dvd: "nat (r ^ 2) dvd O'"
    and k: "outcome (ini (s @ [zeros [O' div nat (r ^ 2), I, kH, kW]]) (length s)) = Inr k"
    and sk: "shape k = [O' div nat (r ^ 2), I, kH, kW]" and wk: "wf_tensor k"
  shows "outcome (icnr_initialization ini r s a) =
      (if O' = 0 \<or> I = 0 \<or> kH = 0 \<or> kW = 0 then Inl AmbiguousInferredDimension
       else Inr \<lparr>shape = [O', I, kH, kW],
                 data = concat (map (\<lambda>c. block (I * (kH * kW)) (c div nat (r ^ 2)) (data k)) [0..<O'])\<rparr>)"
proof -
  define r2 where "r2 = nat (r ^ 2)"
  define R where "R = O' div r2"
  have O: "O' = R * r2" using dvd by (simp add: R_def r2_def)
  have ns: "new_shape r (shape (s ! a)) = Inr [R, I, kH, kW]"
    using r(2) shp by (simp add: new_shape_4 R_def r2_def)
  have sk': "shape k = [R, I, kH, kW]" using sk by (simp add: R_def r2_def)
  have out: "outcome (icnr_initialization ini r s a) = icnr_kernel k r [O', I, kH, kW]"
    using icnr_outcome[OF r(1) a ns, of ini] k shp by (simp add: R_def r2_def)
  show ?thesis
  proof (cases "O' = 0 \<or> I = 0 \<or> kH = 0 \<or> kW = 0")
    case True
    have "0 < r2" using r(2) by (simp add: r2_def)
    with True have "R * I * kH * kW = 0" using O by auto
    with sk' have "icnr_kernel k r [O', I, kH, kW] = Inl AmbiguousInferredDimension"
      by (rule icnr_kernel_degenerate)
    with True out show ?thesis by simp
  next
    case False
    then have pos: "0 < R" "0 < I" "0 < kH" "0 < kW" using O by auto
    have l: "length (data k) = R * I * kH * kW"
      using wk sk' by (simp add: wf_tensor_def mult.assoc)
    have "icnr_kernel k r [R * nat (r ^ 2), I, kH, kW] =
        Inr \<lparr>shape = [R * nat (r ^ 2), I, kH, kW],
             data = concat (map (\<lambda>c. block (I * (kH * kW)) (c div nat (r ^ 2)) (data k))
                                [0..<R * nat (r ^ 2)])\<rparr>"
      using sk' l pos r(2) by (rule icnr_kernel_divisible)
    with False out show ?thesis by (simp add: O r2_def)
  qed
qed

text \<open>
  C2. For an upscale factor \<open>r > 1\<close> and a tensor of shape \<open>[O, I, kH, kW]\<close> with \<open>r\<^sup>2\<close>
  dividing \<open>O\<close>, let the base initializer, called on the zero tensor of the reduced shape,
  return a tensor \<open>k\<close> of that shape (nothing is asked of it on any other tensor). Then
  whatever tensor the call returns has the shape \<open>[O, I, kH, kW]\<close> and as many elements;
  each of its \<open>O\<close> output channels is a slice of \<open>I * kH * kW\<close> elements, namely channel
  \<open>c div r\<^sup>2\<close> of \<open>k\<close>; so any two channels of the same block of \<open>r\<^sup>2\<close> consecutive channels
  hold the same slice, element for element. The call does return a tensor when every
  size is positive (with a size of zero the reshape of an empty tensor raises).
\<close>

theorem icnr_uniform_blocks:
  assumes r: "1 < r" and a: "a < length s" and shp: "shape (s ! a) = [O', I, kH, kW]"
    and dvd: "nat (r ^ 2) dvd O'"
    and k: "outcome (ini (s @ [zeros [O' div nat (r ^ 2), I, kH, kW]]) (length s)) = Inr k"
    and sk: "shape k = [O' div nat (r ^ 2), I, kH, kW]" and wk: "wf_tensor k"
  shows "(0 < O' \<and> 0 < I \<and> 0 < kH \<and> 0 < kW \<longrightarrow>
            (\<exists>res. outcome (icnr_initialization ini r s a) = Inr res))
       \<and> (\<forall>res. outcome (icnr_initialization ini r s a) = Inr res \<longrightarrow>
            shape res = [O', I, kH, kW] \<and> wf_tensor res
            \<and> (\<forall>c<O'. length (channel res c) = I * (kH * kW)
                      \<and> channel res c = channel k (c div nat (r ^ 2)))
            \<and> (\<forall>c1<O'. \<forall>c2<O'. c1 div nat (r ^ 2) = c2 div nat (r ^ 2) \<longrightarrow>
                   channel res c1 = channel res c2))"
proof -
  have r1: "r \<noteq> 1" and r2: "0 < nat (r ^ 2)" using r by simp_all
  have out: "outcome (icnr_initialization ini r s a) =
      (if O' = 0 \<or> I = 0 \<or> kH = 0 \<or> kW = 0 then Inl AmbiguousInferredDimension
       else Inr \<lparr>shape = [O', I, kH, kW],
                 data = concat (map (\<lambda>c. block (I * (kH * kW)) (c div nat (r ^ 2)) (data k)) [0..<O'])\<rparr>)"
    using r1 r2 a shp dvd k sk wk by (rule icnr_divisible_at)
  have O: "O' = O' div nat (r ^ 2) * nat (r ^ 2)" using dvd by simp
  have lk: "length (data k) = O' div nat (r ^ 2) * I * (kH * kW)"
    using wk sk by (simp add: wf_tensor_def mult.assoc)
  have lb: "length (block (I * (kH * kW)) (j div nat (r ^ 2)) (data k)) = I * (kH * kW)"
    if "j < O'" for j
  proof -
    from that have "j < O' div nat (r ^ 2) * nat (r ^ 2)" using O by simp
    with lk r2 show ?thesis by (rule length_channel_block)
  qed
  have ck: "channel k q = block (I * (kH * kW)) q (data k)" for q
    using sk by (simp add: channel_def)
  have props: "shape res = [O', I, kH, kW] \<and> wf_tensor res
      \<and> (\<forall>c<O'. length (channel res c) = I * (kH * kW)
                \<and> channel res c = channel k (c div nat (r ^ 2)))"
    if res: "outcome (icnr_initialization ini r s a) = Inr res" for res
  proof -
    from res out have eq: "res = \<lparr>shape = [O', I, kH, kW],
        data = concat (map (\<lambda>c. block (I * (kH * kW)) (c div nat (r ^ 2)) (data k)) [0..<O'])\<rparr>"
      by (simp split: if_splits)
    have len: "length (data res) = O' * (I * (kH * kW))"
      unfolding eq using lb by (simp add: length_concat_map_upt)
    have ch: "channel res c = block (I * (kH * kW)) (c div nat (r ^ 2)) (data k)"
      if c: "c < O'" for c
    proof -
      have "block (I * (kH * kW)) c
              (concat (map (\<lambda>c. block (I * (kH * kW)) (c div nat (r ^ 2)) (data k)) [0..<O']))
          = block (I * (kH * kW)) (c div nat (r ^ 2)) (data k)"
        using lb c by (rule block_concat_map_upt)
      then show ?thesis by (simp add: eq channel_def)
    qed
    show ?thesis
      using len ch lb ck by (simp add: eq wf_tensor_def)
  qed
  have uni: "channel res c1 = channel res c2"
    if "outcome (icnr_initialization ini r s a) = Inr res" and "c1 < O'" and "c2 < O'"
      and "c1 div nat (r ^ 2) = c2 div nat (r ^ 2)" for res c1 c2
    using props[OF that(1)] that(2-4) by simp
  have ret: "\<exists>res. outcome (icnr_initialization ini r s a) = Inr res"
    if "0 < O' \<and> 0 < I \<and> 0 < kH \<and> 0 < kW"
    using out that by simp
  show ?thesis using ret props uni by blast
qed

lemma shape_preserving_constant_fill: "shape_preserving (constant_fill v)"
  by (simp add: shape_preserving_def constant_fill_def fetch_def outcome_def wf_tensor_def numel_def)

lemma computes_constant_fill:
  "computes (constant_fill v) (\<lambda>t. Inr (t\<lparr>data := replicate (numel t) v\<rparr>))"
  by (simp add: computes_def constant_fill_def fetch_def outcome_def)

lemma side_effect_free_full_like: "side_effect_free (full_like v)"
  by (simp add: side_effect_free_def full_like_def fetch_def)

theorem icnr_uniform_blocks_witness:
  "\<exists>res. outcome (icnr_initialization (constant_fill (7::int)) 2
                   [\<lparr>shape = [4, 1, 1, 1], data = [5, 5, 5, 5]\<rparr>] 0) = Inr res
         \<and> shape res = [4, 1, 1, 1] \<and> wf_tensor res
         \<and> length (channel res 3) = 1
         \<and> channel res 3 = channel \<lparr>shape = [1, 1, 1, 1], data = [7]\<rparr> 0
         \<and> channel res 0 = channel res 3"
proof -
  have d: "nat ((2::int) ^ 2) dvd (4::nat)" by simp
  have k: "outcome (constant_fill (7::int)
                      ([\<lparr>shape = [4, 1, 1, 1], data = [5, 5, 5, 5]\<rparr>]
                         @ [zeros [4 div nat (2 ^ 2), 1, 1, 1]])
                      (length [\<lparr>shape = [4, 1, 1, 1], data = [5, 5, 5, 5::int]\<rparr>]))
      = Inr \<lparr>shape = [1, 1, 1, 1], data = [7]\<rparr>"
    by (simp add: constant_fill_def fetch_def outcome_def zeros_def numel_def)
  have wk: "wf_tensor \<lparr>shape = [1, 1, 1, 1], data = [7::int]\<rparr>" by (simp add: wf_tensor_def)
  have r: "(1::int) < 2" by simp
  have a: "0 < length [\<lparr>shape = [4, 1, 1, 1], data = [5, 5, 5, 5::int]\<rparr>]" by simp
  have shp: "shape ([\<lparr>shape = [4, 1, 1, 1], data = [5, 5, 5, 5::int]\<rparr>] ! 0) = [4, 1, 1, 1]"
    by simp
  have sk: "shape \<lparr>shape = [1, 1, 1, 1], data = [7::int]\<rparr> = [4 div nat (2 ^ 2), 1, 1, 1]"
    by simp
  note th = icnr_uniform_blocks[of 2 0 "[\<lparr>shape = [4, 1, 1, 1], data = [5, 5, 5, 5::int]\<rparr>]"
      4 1 1 1 "constant_fill 7" "\<lparr>shape = [1, 1, 1, 1], data = [7]\<rparr>", OF r a shp d k sk wk]
  have "\<exists>res. outcome (icnr_initialization (constant_fill (7::int)) 2
      [\<lparr>shape = [4, 1, 1, 1], data = [5, 5, 5, 5]\<rparr>] 0) = Inr res"
    by (rule th[THEN conjunct1, rule_format]) simp_all
  then obtain res where res: "outcome (icnr_initialization (constant_fill (7::int)) 2
      [\<lparr>shape = [4, 1, 1, 1], data = [5, 5, 5, 5]\<rparr>] 0) = Inr res"
    by blast
  note p = th[THEN conjunct2, rule_format, OF res]
  have s: "shape res = [4, 1, 1, 1]" and w: "wf_tensor res"
    using p by simp_all
  have c: "length (channel res 3) = 1
      \<and> channel res 3 = channel \<lparr>shape = [1, 1, 1, 1], data = [7]\<rparr> 0"
  proof -
    have "(3::nat) < 4" by simp
    from p[THEN conjunct2, THEN conjunct2, THEN conjunct1, rule_format, OF this]
    have "length (channel res 3) = 1 * (1 * 1)"
      and "channel res 3 = channel \<lparr>shape = [1, 1, 1, 1], data = [7]\<rparr> (3 div nat (2 ^ 2))"
      by blast+
    moreover have "1 * (1 * 1) = (1::nat)" and "3 div nat ((2::int) ^ 2) = 0" by simp_all
    ultimately show ?thesis by (simp only:)
  qed
  have u: "channel res 0 = channel res 3"
    using p[THEN conjunct2, THEN conjunct2, THEN conjunct2, rule_format, of 0 3] by simp
  from res s w c u show ?thesis by blast
qed

section \<open>Shape preservation\<close>

text \<open>
  C6. For a positive upscale factor \<open>r\<close>, a tensor of shape \<open>[O, I, kH, kW]\<close> with \<open>r\<^sup>2\<close>
  dividing \<open>O\<close> and a shape-preserving base initializer, the tensor the call returns has
  the shape of the input tensor; the call returns one when \<open>r = 1\<close> or every size is
  positive.
\<close>

theorem icnr_shape_preserved:
  assumes r: "0 < r" and a: "a < length s" and wf: "wf_tensor (s ! a)"
    and shp: "shape (s ! a) = [O', I, kH, kW]"
    and dvd: "nat (r ^ 2) dvd O'" and sp: "shape_preserving ini"
  shows "(r = 1 \<or> (0 < O' \<and> 0 < I \<and> 0 < kH \<and> 0 < kW) \<longrightarrow>
            (\<exists>res. outcome (icnr_initialization ini r s a) = Inr res))
       \<and> (\<forall>res. outcome (icnr_initialization ini r s a) = Inr res \<longrightarrow>
            shape res = shape (s ! a))"
proof (cases "r = 1")
  case True
  obtain t where "outcome (ini s a) = Inr t" and "shape t = shape (s ! a)"
    using sp a wf unfolding shape_preserving_def by blast
  with True show ?thesis by (simp add: icnr_initialization_def)
next
  case False
  have r2: "0 < nat (r ^ 2)" using r by simp
  obtain k where "outcome (ini (s @ [zeros [O' div nat (r ^ 2), I, kH, kW]]) (length s)) = Inr k"
    and "shape k = [O' div nat (r ^ 2), I, kH, kW]"
    and "length (data k) = O' div nat (r ^ 2) * I * (kH * kW)"
    and out: "outcome (icnr_initialization ini r s a) =
      (if O' = 0 \<or> I = 0 \<or> kH = 0 \<or> kW = 0 then Inl AmbiguousInferredDimension
       else Inr \<lparr>shape = [O', I, kH, kW],
                 data = concat (map (\<lambda>c. block (I * (kH * kW)) (c div nat (r ^ 2)) (data k)) [0..<O'])\<rparr>)"
    using False r2 a shp dvd sp by (rule icnr_divisible)
  show ?thesis using out shp False by auto
qed

theorem icnr_shape_preserved_witness:
  "\<exists>res. outcome (icnr_initialization (constant_fill (7::int)) 2
                   [\<lparr>shape = [4, 1, 1, 1], data = [5, 5, 5, 5]\<rparr>] 0) = Inr res
         \<and> shape res = [4, 1, 1, 1]"
proof -
  have "nat ((2::int) ^ 2) dvd (4::nat)" by simp
  from icnr_shape_preserved[of 2 0 "[\<lparr>shape = [4, 1, 1, 1], data = [5, 5, 5, 5::int]\<rparr>]" 4 1 1 1
      "constant_fill 7", OF _ _ _ _ this shape_preserving_constant_fill]
  show ?thesis by (simp add: wf_tensor_def) blast
qed

section \<open>The input tensor is left as it was\<close>

lemma icnr_prefix:
  assumes "side_effect_free ini"
  shows "prefix s (fst (icnr_initialization ini r s a))"
proof (cases "r = 1")
  case True
  with assms show ?thesis by (simp add: icnr_initialization_def side_effect_free_def)
next
  case r: False
  show ?thesis
  proof (cases "fetch s a")
    case (Inl e)
    with r show ?thesis by (simp add: icnr_initialization_def)
  next
    case (Inr tensor)
    show ?thesis
    proof (cases "new_shape r (shape tensor)")
      case (Inl e)
      with r Inr show ?thesis by (simp add: icnr_initialization_def)
    next
      case ns: (Inr ns)
      obtain s1 res where ini: "ini (s @ [zeros ns]) (length s) = (s1, res)"
        by (cases "ini (s @ [zeros ns]) (length s)")
      have "prefix (s @ [zeros ns]) (fst (ini (s @ [zeros ns]) (length s)))"
        using assms by (simp add: side_effect_free_def)
      then have "prefix (s @ [zeros ns]) s1" using ini by simp
      then have p1: "prefix s s1" by (rule append_prefixD)
      then have p2: "prefix s (s1 @ ys)" for ys by (rule prefix_prefix)
      show ?thesis
        using r Inr ns ini p1 p2
        by (simp add: icnr_initialization_def alloc_def split: sum.splits)
    qed
  qed
qed

text \<open>
  C9. With a base initializer that is free of side effects, the store after the call
  extends the store before it: every tensor that existed, the input tensor among them,
  has its contents unchanged, for every upscale factor and whether the call returns or
  raises.
\<close>

theorem icnr_leaves_input_unchanged:
  assumes "side_effect_free ini" and "a < length s"
  shows "prefix s (fst (icnr_initialization ini r s a))
       \<and> fst (icnr_initialization ini r s a) ! a = s ! a"
proof -
  have p: "prefix s (fst (icnr_initialization ini r s a))"
    using assms(1) by (rule icnr_prefix)
  then obtain zs where "fst (icnr_initialization ini r s a) = s @ zs"
    by (rule prefixE)
  with assms(2) p show ?thesis by (simp add: nth_append)
qed

theorem icnr_leaves_input_unchanged_witness:
  "fst (icnr_initialization (full_like (7::int)) 2
          [\<lparr>shape = [4, 1, 1, 1], data = [5, 5, 5, 5]\<rparr>] 0) ! 0
     = \<lparr>shape = [4, 1, 1, 1], data = [5, 5, 5, 5]\<rparr>"
  using icnr_leaves_input_unchanged[of "full_like 7" 0
      "[\<lparr>shape = [4, 1, 1, 1], data = [5, 5, 5, 5::int]\<rparr>]" 2, OF side_effect_free_full_like]
  by simp

section \<open>The result depends on the shape of the input only\<close>

text \<open>
  C10. For an upscale factor \<open>r > 1\<close> and a deterministic base initializer (one that
  computes a function \<open>g\<close> of the tensor it is given), two input tensors of equal shape,
  in whatever stores, give the same outcome: the same tensor, element for element, or
  the same error.
\<close>

theorem icnr_depends_on_shape_only:
  assumes r: "1 < r" and det: "computes ini g"
    and a1: "a1 < length s1" and a2: "a2 < length s2"
    and shp: "shape (s1 ! a1) = shape (s2 ! a2)"
  shows "outcome (icnr_initialization ini r s1 a1) = outcome (icnr_initialization ini r s2 a2)"
proof (cases "new_shape r (shape (s1 ! a1))")
  case (Inl e)
  with r a1 a2 shp show ?thesis
    by (simp add: icnr_initialization_def fetch_def outcome_def)
next
  case (Inr ns)
  have r1: "r \<noteq> 1" using r by simp
  have z: "outcome (ini (s @ [zeros ns]) (length s)) = g (zeros ns)" for s
    using det unfolding computes_def by (metis length_append_singleton lessI nth_append_length)
  have "outcome (icnr_initialization ini r s1 a1) =
      (case g (zeros ns) of Inl e \<Rightarrow> Inl e | Inr k \<Rightarrow> icnr_kernel k r (shape (s1 ! a1)))"
    using icnr_outcome[OF r1 a1 Inr, of ini] z by simp
  moreover have "outcome (icnr_initialization ini r s2 a2) =
      (case g (zeros ns) of Inl e \<Rightarrow> Inl e | Inr k \<Rightarrow> icnr_kernel k r (shape (s2 ! a2)))"
    using icnr_outcome[OF r1 a2, of ns ini] Inr shp z by simp
  ultimately show ?thesis by (simp only: shp)
qed

theorem icnr_depends_on_shape_only_witness:
  "outcome (icnr_initialization (constant_fill (7::int)) 2
              [\<lparr>shape = [4, 1, 1, 1], data = [5, 5, 5, 5]\<rparr>] 0)
   = outcome (icnr_initialization (constant_fill 7) 2
              [\<lparr>shape = [1], data = [0]\<rparr>, \<lparr>shape = [4, 1, 1, 1], data = [1, 2, 3, 4]\<rparr>] 1)"
  using icnr_depends_on_shape_only[of 2 "constant_fill 7" _ 0
      "[\<lparr>shape = [4, 1, 1, 1], data = [5, 5, 5, 5::int]\<rparr>]" 1
      "[\<lparr>shape = [1], data = [0]\<rparr>, \<lparr>shape = [4, 1, 1, 1], data = [1, 2, 3, 4]\<rparr>]",
      OF _ computes_constant_fill]
  by simp

section \<open>Output channels not divisible by the squared factor\<close>

lemma icnr_truncated:
  assumes r: "r \<noteq> 1" "0 < nat (r ^ 2)" and a: "a < length s"
    and shp: "shape (s ! a) = [O', I, kH, kW]" and sp: "shape_preserving ini"
    and pos: "0 < O'" "0 < I" "0 < kH" "0 < kW"
  shows "outcome (icnr_initialization ini r s a) =
     (if O' < nat (r ^ 2) then Inl AmbiguousInferredDimension
      else if O' dvd I * (O' div nat (r ^ 2)) * nat (r ^ 2) then
        (case outcome (ini (s @ [zeros [O' div nat (r ^ 2), I, kH, kW]]) (length s)) of
           Inl e \<Rightarrow> Inl e
         | Inr k \<Rightarrow>
             Inr \<lparr>shape = [O', I * (O' div nat (r ^ 2)) * nat (r ^ 2) div O', kH, kW],
                  data = swap01 (I * (O' div nat (r ^ 2)) * nat (r ^ 2) div O') O' (kH * kW)
                           (tile_last (nat (r ^ 2)) I (O' div nat (r ^ 2)) (kH * kW)
                              (swap01 (O' div nat (r ^ 2)) I (kH * kW) (data k)))\<rparr>)
      else Inl (ShapeInvalidForSize [- 1, int O', int kH, int kW]
                  (I * (O' div nat (r ^ 2)) * (nat (r ^ 2) * (kH * kW)))))"
proof -
  define r2 where "r2 = nat (r ^ 2)"
  define R where "R = O' div r2"
  have r2: "0 < r2" using r(2) by (simp add: r2_def)
  have ns: "new_shape r (shape (s ! a)) = Inr [R, I, kH, kW]"
    using r(2) shp by (simp add: new_shape_4 R_def r2_def)
  obtain k where k: "outcome (ini (s @ [zeros [R, I, kH, kW]]) (length s)) = Inr k"
    and sk: "shape k = [R, I, kH, kW]" and lk: "length (data k) = prod_list [R, I, kH, kW]"
    using sp by (rule shape_preserving_zeros)
  have out: "outcome (icnr_initialization ini r s a) = icnr_kernel k r [O', I, kH, kW]"
    using icnr_outcome[OF r(1) a ns, of ini] k shp by simp
  show ?thesis
  proof (cases "O' < r2")
    case True
    then have "R = 0" by (simp add: R_def)
    then have "R * I * kH * kW = 0" by simp
    with sk have "icnr_kernel k r [O', I, kH, kW] = Inl AmbiguousInferredDimension"
      by (rule icnr_kernel_degenerate)
    with out True show ?thesis by (simp add: r2_def)
  next
    case False
    then have "r2 \<le> O'" by simp
    then have R: "0 < R" using r2 by (simp add: R_def div_greater_zero_iff)
    have "icnr_kernel k r [O', I, kH, kW] =
     (if O' dvd I * R * nat (r ^ 2) then
        Inr \<lparr>shape = [O', I * R * nat (r ^ 2) div O', kH, kW],
             data = swap01 (I * R * nat (r ^ 2) div O') O' (kH * kW)
                      (tile_last (nat (r ^ 2)) I R (kH * kW) (swap01 R I (kH * kW) (data k)))\<rparr>
      else Inl (ShapeInvalidForSize [- 1, int O', int kH, int kW] (I * R * (nat (r ^ 2) * (kH * kW)))))"
      using sk R pos(2,3,4,1) r(2) by (rule icnr_kernel_general)
    with out False k show ?thesis by (simp add: r2_def R_def)
  qed
qed

lemma truncated_less:
  assumes "\<not> r2 dvd O'" and "0 < (r2::nat)"
  shows "O' div r2 * r2 < O'"
proof -
  have "O' mod r2 \<noteq> 0" using assms(1) by (simp add: dvd_eq_mod_eq_0)
  moreover have "O' = O' div r2 * r2 + O' mod r2" by simp
  ultimately show ?thesis by linarith
qed

text \<open>
  C7, as the code has it. For \<open>r > 1\<close>, a tensor of shape \<open>[O, I, kH, kW]\<close> with positive
  \<open>I\<close>, \<open>kH\<close>, \<open>kW\<close> and \<open>O\<close> not divisible by \<open>r\<^sup>2\<close>, and a shape-preserving base
  initializer, nothing checks divisibility and the reduced size is \<open>O div r\<^sup>2\<close>. What
  happens next is decided by the reshapes: with \<open>O < r\<^sup>2\<close> the sub-kernel is empty and
  the first reshape raises; otherwise the final reshape raises unless \<open>O\<close> divides
  \<open>I * (O div r\<^sup>2) * r\<^sup>2\<close>, and only then does the call return, silently, a tensor of
  shape \<open>[O, I * (O div r\<^sup>2) * r\<^sup>2 div O, kH, kW]\<close> with fewer elements than the input.
\<close>

theorem icnr_not_divisible:
  assumes r: "1 < r" and a: "a < length s" and shp: "shape (s ! a) = [O', I, kH, kW]"
    and nd: "\<not> nat (r ^ 2) dvd O'" and sp: "shape_preserving ini"
    and pos: "0 < I" "0 < kH" "0 < kW"
  shows "(O' < nat (r ^ 2) \<longrightarrow>
            outcome (icnr_initialization ini r s a) = Inl AmbiguousInferredDimension)
       \<and> (nat (r ^ 2) \<le> O' \<and> \<not> O' dvd I * (O' div nat (r ^ 2)) * nat (r ^ 2) \<longrightarrow>
            outcome (icnr_initialization ini r s a) =
              Inl (ShapeInvalidForSize [- 1, int O', int kH, int kW]
                     (I * (O' div nat (r ^ 2)) * (nat (r ^ 2) * (kH * kW)))))
       \<and> (nat (r ^ 2) \<le> O' \<and> O' dvd I * (O' div nat (r ^ 2)) * nat (r ^ 2) \<longrightarrow>
            (\<exists>res. outcome (icnr_initialization ini r s a) = Inr res
                 \<and> shape res = [O', I * (O' div nat (r ^ 2)) * nat (r ^ 2) div O', kH, kW]
                 \<and> numel res < numel (s ! a)))"
proof -
  define r2 where "r2 = nat (r ^ 2)"
  define R where "R = O' div r2"
  have r1: "r \<noteq> 1" and r2: "0 < nat (r ^ 2)" using r by simp_all
  have O: "0 < O'" using nd by (cases "O' = 0") simp_all
  note out = icnr_truncated[OF r1 r2 a shp sp O pos]
  obtain k where k: "outcome (ini (s @ [zeros [O' div nat (r ^ 2), I, kH, kW]]) (length s)) = Inr k"
    using sp by (rule shape_preserving_zeros)
  have less: "I * (R * r2) div O' < I" if d: "O' dvd I * (R * r2)"
  proof -
    have "R * r2 < O'" unfolding R_def using nd r2 by (intro truncated_less) (simp_all add: r2_def)
    then have "I * (R * r2) < I * O'" using pos(1) by simp
    moreover have "I * (R * r2) div O' * O' = I * (R * r2)" using d by simp
    ultimately have "I * (R * r2) div O' * O' < I * O'" by simp
    then show ?thesis by simp
  qed
  have n: "numel (s ! a) = O' * I * (kH * kW)" using shp by (simp add: numel_def)
  show ?thesis
    using out k less n O pos
    by (auto simp add: numel_def r2_def R_def mult.assoc)
qed

theorem icnr_not_divisible_witness:
  "\<exists>res. outcome (icnr_initialization (constant_fill (1::real)) 2
                   [\<lparr>shape = [7, 7, 1, 1], data = replicate 49 0\<rparr>] 0) = Inr res
         \<and> shape res = [7, 4, 1, 1] \<and> numel res < 49"
proof -
  have nd: "\<not> nat ((2::int) ^ 2) dvd (7::nat)" by simp
  note th = icnr_not_divisible[of 2 0 "[\<lparr>shape = [7, 7, 1, 1], data = replicate 49 (0::real)\<rparr>]"
      7 7 1 1 "constant_fill 1", OF _ _ _ nd shape_preserving_constant_fill, simplified]
  have "numel \<lparr>shape = [7, 7, 1, 1], data = replicate 49 (0::real)\<rparr> = 49"
    by (simp add: numel_def)
  with th show ?thesis by simp
qed

text \<open>
  A call that raises, on the specification's own negative case: \<open>O = 7\<close>
  and \<open>r = 2\<close>, with \<open>I = 3\<close> and a 3 by 3 kernel: the tiled sub-kernel has 108 elements,
  which is no multiple of \<open>7 * 3 * 3\<close>, and the final reshape raises.
\<close>

theorem icnr_not_divisible_raises:
  "outcome (icnr_initialization (constant_fill (1::real)) 2
              [\<lparr>shape = [7, 3, 3, 3], data = replicate 189 0\<rparr>] 0)
     = Inl (ShapeInvalidForSize [- 1, 7, 3, 3] 108)"
  using icnr_truncated[of 2 0 "[\<lparr>shape = [7, 3, 3, 3], data = replicate 189 (0::real)\<rparr>]"
      7 3 3 3 "constant_fill 1", OF _ _ _ _ shape_preserving_constant_fill]
  by simp

section \<open>The concrete scenario\<close>

lemma shape_preserving_fill_by_channel: "shape_preserving fill_by_channel"
proof -
  have "\<exists>t. outcome (fill_by_channel s a) = Inr t \<and> shape t = shape (s ! a) \<and> wf_tensor t"
    if "a < length s" and "wf_tensor (s ! a)" for s a
  proof (cases "shape (s ! a)")
    case Nil
    with that show ?thesis by (simp add: fill_by_channel_def fetch_def outcome_def)
  next
    case (Cons d0 rest)
    have "length (concat (map (\<lambda>c. replicate (prod_list rest) (real (Suc c))) [0..<d0]))
        = d0 * prod_list rest"
      by (rule length_concat_map_upt) simp
    with Cons that show ?thesis
      by (simp add: fill_by_channel_def fetch_def outcome_def wf_tensor_def)
  qed
  then show ?thesis unfolding shape_preserving_def by blast
qed

lemma fill_by_channel_zeros:
  "outcome (fill_by_channel (s @ [zeros [2, 3, 3, 3]]) (length s))
     = Inr \<lparr>shape = [2, 3, 3, 3], data = replicate 27 1 @ replicate 27 2\<rparr>"
proof -
  have u: "[0..<2] = [0, 1::nat]" by (simp add: upt_rec)
  show ?thesis
    by (simp add: fill_by_channel_def fetch_def outcome_def zeros_def u)
qed

lemma blocks_of_two:
  "concat (map (\<lambda>c. block 27 (c div 4) (replicate 27 x @ replicate 27 y)) [0..<8])
     = replicate 108 x @ replicate 108 y"
proof -
  have b0: "block 27 0 (replicate 27 x @ replicate 27 y) = replicate 27 x"
    by (simp add: block_def)
  have b1: "block 27 1 (replicate 27 x @ replicate 27 y) = replicate 27 y"
    by (simp add: block_def)
  have u: "[0..<8] = [0, 1, 2, 3, 4, 5, 6, 7::nat]" by (simp add: upt_rec)
  have r4: "replicate 27 z @ replicate 27 z @ replicate 27 z @ replicate 27 z = replicate 108 z"
    for z :: 'a
    by (simp add: replicate_add[symmetric])
  show ?thesis
    unfolding u by (simp add: b0 b1 b1[unfolded One_nat_def] r4)
qed

text \<open>
  C5. With \<open>O = 8\<close>, \<open>I = 3\<close>, \<open>kH = kW = 3\<close> and \<open>r = 2\<close>, and the base initializer that fills
  output channel 0 of the sub-kernel with 1.0 and output channel 1 with 2.0, the call
  returns, whatever the input tensor holds, the tensor of shape \<open>[8, 3, 3, 3]\<close> whose
  channels 0 to 3 are the constant-1.0 slice and whose channels 4 to 7 are the
  constant-2.0 slice, exactly.
\<close>

theorem icnr_concrete_scenario:
  "outcome (icnr_initialization fill_by_channel 2 [\<lparr>shape = [8, 3, 3, 3], data = d\<rparr>] 0)
     = Inr \<lparr>shape = [8, 3, 3, 3], data = replicate 108 1 @ replicate 108 2\<rparr>
   \<and> map (channel \<lparr>shape = [8, 3, 3, 3], data = replicate 108 1 @ replicate 108 (2::real)\<rparr>) [0..<8]
     = replicate 4 (replicate 27 1) @ replicate 4 (replicate 27 2)"
proof
  define k :: "real tensor" where "k = \<lparr>shape = [2, 3, 3, 3], data = replicate 27 1 @ replicate 27 2\<rparr>"
  have ns: "new_shape 2 (shape ([\<lparr>shape = [8, 3, 3, 3], data = d\<rparr>] ! 0)) = Inr [2, 3, 3, 3]"
    by (simp add: new_shape_def)
  have "outcome (icnr_initialization fill_by_channel 2 [\<lparr>shape = [8, 3, 3, 3], data = d\<rparr>] 0)
      = icnr_kernel k 2 [8, 3, 3, 3]"
    using icnr_outcome[OF _ _ ns, of fill_by_channel]
      fill_by_channel_zeros[of "[\<lparr>shape = [8, 3, 3, 3], data = d\<rparr>]"]
    by (simp add: k_def)
  also have "icnr_kernel k 2 [2 * nat (2 ^ 2), 3, 3, 3] =
     Inr \<lparr>shape = [2 * nat (2 ^ 2), 3, 3, 3],
          data = concat (map (\<lambda>c. block (3 * (3 * 3)) (c div nat (2 ^ 2)) (data k))
                             [0..<2 * nat (2 ^ 2)])\<rparr>"
    by (rule icnr_kernel_divisible) (simp_all add: k_def)
  then have "icnr_kernel k 2 [8, 3, 3, 3] =
     Inr \<lparr>shape = [8, 3, 3, 3], data = replicate 108 1 @ replicate 108 2\<rparr>"
    using blocks_of_two[of "1::real" 2] by (simp add: k_def)
  finally show "outcome (icnr_initialization fill_by_channel 2 [\<lparr>shape = [8, 3, 3, 3], data = d\<rparr>] 0)
     = Inr \<lparr>shape = [8, 3, 3, 3], data = replicate 108 1 @ replicate 108 2\<rparr>" .
next
  have u: "[0..<8] = [0, 1, 2, 3, 4, 5, 6, 7::nat]" by (simp add: upt_rec)
  have r4: "replicate 4 z = [z, z, z, z]" for z :: "real list"
    by (simp add: numeral_eq_Suc)
  show "map (channel \<lparr>shape = [8, 3, 3, 3], data = replicate 108 1 @ replicate 108 (2::real)\<rparr>) [0..<8]
     = replicate 4 (replicate 27 1) @ replicate 4 (replicate 27 2)"
    unfolding u r4 by (simp add: channel_def block_def)
qed

section \<open>The code against the reference computation\<close>








section \<open>The construction-time hook\<close>

lemma icnr_keeps_input:
  assumes c: "confined ini" and r: "r \<noteq> 1" and a: "a < length s"
  shows "a < length (fst (icnr_initialization ini r s a))
       \<and> fst (icnr_initialization ini r s a) ! a = s ! a"
proof (cases "new_shape r (shape (s ! a))")
  case (Inl e)
  with r a show ?thesis by (simp add: icnr_initialization_def fetch_def)
next
  case (Inr ns)
  obtain s1 res where ini: "ini (s @ [zeros ns]) (length s) = (s1, res)"
    by (cases "ini (s @ [zeros ns]) (length s)")
  have "a < length (s @ [zeros ns])" and "a \<noteq> length s" using a by simp_all
  with c have "a < length (fst (ini (s @ [zeros ns]) (length s)))
      \<and> fst (ini (s @ [zeros ns]) (length s)) ! a = (s @ [zeros ns]) ! a"
    unfolding confined_def by blast
  then have s1: "a < length s1" "s1 ! a = s ! a" using ini a by (simp_all add: nth_append)
  then have s2: "(s1 @ ys) ! a = s ! a" for ys by (simp add: nth_append)
  show ?thesis
    using r a Inr ini s1 s2
    by (simp add: icnr_initialization_def fetch_def alloc_def split: sum.splits)
qed

lemma confined_constant_fill: "confined (constant_fill v)"
  by (simp add: confined_def constant_fill_def fetch_def)

text \<open>
  For every upscale factor other than 1 and every initializer confined to its argument,
  the in-place ones included, the weight holds after \<open>post_build\<close> what it held before.
\<close>

lemma post_build_keeps_weight:
  assumes "confined (initializer self)" and "upscale_factor (upsample self) \<noteq> 1"
    and "weight (convolution self) < length s"
  shows "fst (post_build weight self s) ! weight (convolution self) = s ! weight (convolution self)"
proof -
  have "fst (post_build weight self s)
      = fst (icnr_initialization (initializer self) (upscale_factor (upsample self)) s
               (weight (convolution self)))"
    by (simp add: post_build_def split: prod.splits sum.splits)
  with icnr_keeps_input[OF assms] show ?thesis by simp
qed

text \<open>
  C1, at an input where the code does otherwise. With \<open>upscale_factor = 2\<close>, a weight of
  shape \<open>[4, 1, 1, 1]\<close> holding 5 everywhere and the in-place initializer that fills with
  7, \<open>post_build\<close> returns normally and leaves three tensors: the weight at address 0,
  still holding 5; the initialized sub-kernel; and the ICNR tensor, holding 7, at
  address 2, which \<open>post_build\<close> has dropped. The weight has not been overwritten.
\<close>

theorem post_build_discards_result:
  "post_build (\<lambda>c. c)
     \<lparr>convolution = 0, upsample = \<lparr>upscale_factor = 2\<rparr>, initializer = constant_fill (7::int)\<rparr>
     [\<lparr>shape = [4, 1, 1, 1], data = [5, 5, 5, 5]\<rparr>]
   = ([\<lparr>shape = [4, 1, 1, 1], data = [5, 5, 5, 5]\<rparr>,
       \<lparr>shape = [1, 1, 1, 1], data = [7]\<rparr>,
       \<lparr>shape = [4, 1, 1, 1], data = [7, 7, 7, 7]\<rparr>], Inr ())"
  by code_simp

section \<open>Construction\<close>

text \<open>
  C8, as the code has it. \<open>__init__\<close> has no check of its own: construction fails exactly
  when the constructor of the convolution or the constructor of the rearranger raises,
  and when both return, the module is built from what they return, whatever the upscale
  factor. The convolution is built first and is asked for \<open>out_channels * r * r\<close> output
  channels, the same request for \<open>r\<close> and \<open>- r\<close>, so it cannot tell a negative factor from
  a positive one.
\<close>

theorem init_checks_nothing:
  "((\<exists>e. init Conv PixelShuffle args = Inl e) \<longleftrightarrow>
      (\<exists>e. Conv (conv_call args) = Inl e) \<or> (\<exists>e. PixelShuffle (arg_upscale_factor args) = Inl e))
   \<and> conv_call (args\<lparr>arg_upscale_factor := - arg_upscale_factor args\<rparr>) = conv_call args
   \<and> (\<forall>c u. Conv (conv_call args) = Inr c \<longrightarrow> PixelShuffle (arg_upscale_factor args) = Inr u \<longrightarrow>
          init Conv PixelShuffle args
            = Inr \<lparr>convolution = c, upsample = u, initializer = arg_initializer args\<rparr>)"
proof (intro conjI)
  show "(\<exists>e. init Conv PixelShuffle args = Inl e) \<longleftrightarrow>
      (\<exists>e. Conv (conv_call args) = Inl e) \<or> (\<exists>e. PixelShuffle (arg_upscale_factor args) = Inl e)"
    by (cases "Conv (conv_call args)"; cases "PixelShuffle (arg_upscale_factor args)")
       (simp_all add: init_def)
  show "conv_call (args\<lparr>arg_upscale_factor := - arg_upscale_factor args\<rparr>) = conv_call args"
    by (simp add: conv_call_def)
  show "\<forall>c u. Conv (conv_call args) = Inr c \<longrightarrow> PixelShuffle (arg_upscale_factor args) = Inr u \<longrightarrow>
          init Conv PixelShuffle args
            = Inr \<lparr>convolution = c, upsample = u, initializer = arg_initializer args\<rparr>"
    by (simp add: init_def)
qed

theorem init_checks_nothing_witness:
  "init Conv_model PixelShuffle_model
     \<lparr>in_channels = 3, out_channels = 2, arg_upscale_factor = 0, kernel_size = 3,
      stride = 1, padding = PadStr ''same'', dilation = 1, groups = 1, bias = True,
      padding_mode = ''zeros'', arg_initializer = constant_fill (0::int)\<rparr>
   = Inr \<lparr>convolution =
            \<lparr>conv_in_channels = 3, conv_out_channels = 0, conv_kernel_size = 3,
             conv_stride = 1, conv_padding = PadStr ''same'', conv_dilation = 1,
             conv_groups = 1, conv_bias = True, conv_padding_mode = ''zeros''\<rparr>,
          upsample = \<lparr>upscale_factor = 0\<rparr>,
          initializer = constant_fill 0\<rparr>"
proof -
  define args :: "int init_args" where
    "args = \<lparr>in_channels = 3, out_channels = 2, arg_upscale_factor = 0, kernel_size = 3,
      stride = 1, padding = PadStr ''same'', dilation = 1, groups = 1, bias = True,
      padding_mode = ''zeros'', arg_initializer = constant_fill (0::int)\<rparr>"
  have c: "Conv_model (conv_call args) =
      Inr \<lparr>conv_in_channels = 3, conv_out_channels = 0, conv_kernel_size = 3,
           conv_stride = 1, conv_padding = PadStr ''same'', conv_dilation = 1,
           conv_groups = 1, conv_bias = True, conv_padding_mode = ''zeros''\<rparr>"
    by (simp add: Conv_model_def conv_call_def args_def)
  have u: "PixelShuffle_model (arg_upscale_factor args) = Inr \<lparr>upscale_factor = 0\<rparr>"
    by (simp add: PixelShuffle_model_def args_def)
  from init_checks_nothing[of Conv_model PixelShuffle_model args,
      THEN conjunct2, THEN conjunct2, rule_format, OF c u]
  show ?thesis by (simp add: args_def)
qed

text \<open>
  A construction that succeeds with \<open>upscale_factor = -2\<close>: the convolution is asked for
  \<open>2 * (-2) * (-2) = 8\<close> output channels, the rearranger stores the factor, and the module
  is constructed.
\<close>

theorem init_accepts_negative_factor:
  "init Conv_model PixelShuffle_model
     \<lparr>in_channels = 3, out_channels = 2, arg_upscale_factor = - 2, kernel_size = 3,
      stride = 1, padding = PadStr ''same'', dilation = 1, groups = 1, bias = True,
      padding_mode = ''zeros'', arg_initializer = constant_fill (0::int)\<rparr>
   = Inr \<lparr>convolution =
            \<lparr>conv_in_channels = 3, conv_out_channels = 8, conv_kernel_size = 3,
             conv_stride = 1, conv_padding = PadStr ''same'', conv_dilation = 1,
             conv_groups = 1, conv_bias = True, conv_padding_mode = ''zeros''\<rparr>,
          upsample = \<lparr>upscale_factor = - 2\<rparr>,
          initializer = constant_fill 0\<rparr>"
  by (simp add: init_def conv_call_def Conv_model_def PixelShuffle_model_def)

end
